theory Spec2Isabelle
  imports Main "HOL-Library.Multiset"
begin

section \<open>Data model of \<open>knapsack.cpp\<close>\<close>

text \<open>
  \<open>struct Item { const int value; const int weight; }\<close>.  The field names carry the
  prefix \<open>item_\<close>: \<open>value\<close> is a reserved word of Isabelle, and \<open>weight\<close> is
  also the local variable of the functions below.  C++ \<open>int\<close> is modelled as a
  mathematical integer together with the test \<open>in_int\<close>: an addition or multiplication
  whose exact result leaves the 32-bit range is signed overflow, which is undefined
  behaviour, and the model reports it as the error \<open>Overflow\<close>.
\<close>

record Item =
  item_value :: int
  item_weight :: int

type_synonym Individual = "bool list"
type_synonym Population = "Individual list"

text \<open>
  What the C++ leaves undefined or answers with an exception is a value of this type:
  \<open>OutOfBounds\<close> for \<open>operator[]\<close> or an iterator outside its vector, \<open>Overflow\<close>
  for signed overflow, \<open>BadRange\<close> for a \<open>uniform_int_distribution(a, b)\<close> with
  \<open>b < a\<close>, \<open>LengthError\<close> for \<open>std::length_error\<close> of \<open>resize\<close>.
\<close>

datatype error = OutOfBounds | Overflow | BadRange | LengthError

definition in_int :: "int \<Rightarrow> bool" where
  "in_int x \<longleftrightarrow> - (2 ^ 31) \<le> x \<and> x < 2 ^ 31"

subsection \<open>The random source\<close>

text \<open>
  \<open>std::mt19937 rng\<close> is seeded from \<open>std::random_device\<close>, so nothing is known about
  the numbers it yields: the engine is an arbitrary infinite sequence of naturals, and the
  state after a draw is the rest of the sequence.  A distribution is its pair of bounds.
  \<open>uniform_int d g\<close> is the call \<open>d(rng)\<close>: it answers with an element of \<open>[a, b]\<close>
  picked by the next number of the sequence.  Every element of the range is picked by
  some sequence, so a statement about all sequences covers all outcomes of the call.
  The standard requires \<open>a \<le> b\<close> of the bounds when the distribution is built:
  \<open>new_uniform_int_distribution\<close> is that construction, and it reports the violated
  requirement.  A draw from bounds with \<open>b < a\<close>, which no constructed distribution
  has, is reported as well.
\<close>

type_synonym mt19937 = "nat \<Rightarrow> nat"
type_synonym uniform_int_distribution = "int \<times> int"

definition new_uniform_int_distribution :: "int \<Rightarrow> int \<Rightarrow> error + uniform_int_distribution" where
  "new_uniform_int_distribution a b = (if a \<le> b then Inr (a, b) else Inl BadRange)"

definition uniform_int :: "uniform_int_distribution \<Rightarrow> mt19937 \<Rightarrow> error + (int \<times> mt19937)" where
  "uniform_int d g =
     (case d of (a, b) \<Rightarrow>
        if a \<le> b then Inr (a + int (g 0 mod nat (b - a + 1)), g \<circ> Suc)
        else Inl BadRange)"

subsection \<open>The solver object\<close>

text \<open>
  The members of \<open>struct KnapsackSolver\<close> that are fixed at construction.  The two
  mutable members are passed explicitly: \<open>rng\<close> is an argument and a result of every
  function that draws from it, \<open>generation\<close> is the population that \<open>solve\<close> threads
  through its loop.
\<close>

record KnapsackSolver =
  items :: "Item list"
  capacity :: int
  popSize :: int
  maxIterations :: int
  breedingDistribution :: uniform_int_distribution
  populationDistribution :: uniform_int_distribution

text \<open>
  The constructor (lines 31 to 39).  \<open>new_KnapsackSolver\<close> holds the values that the
  member initialisers give the members: the arguments, and the bounds
  \<open>(0, items.size() - 1)\<close> and \<open>(0, pop - 1)\<close> of the two distributions.
  \<open>items.size() - 1\<close> is computed in \<open>size_t\<close> and narrowed to \<open>int\<close>; for an empty
  catalog that is \<open>-1\<close>.
\<close>

definition new_KnapsackSolver :: "Item list \<Rightarrow> int \<Rightarrow> int \<Rightarrow> int \<Rightarrow> KnapsackSolver" where
  "new_KnapsackSolver its cap pop maxit =
     \<lparr> items = its, capacity = cap, popSize = pop, maxIterations = maxit,
       breedingDistribution = (0, int (length its) - 1),
       populationDistribution = (0, pop - 1) \<rparr>"

text \<open>
  \<open>KnapsackSolver_constructor\<close> is the constructor with what its initialisers require,
  in the order of the members: the breeding distribution is built first and needs a
  catalog that is not empty; \<open>pop - 1\<close> must not overflow; the population distribution
  needs \<open>pop \<ge> 1\<close>.  Where all of this holds the object is \<open>new_KnapsackSolver\<close>.
  The constructor reads neither the capacity nor the iteration count.
\<close>

definition KnapsackSolver_constructor :: "Item list \<Rightarrow> int \<Rightarrow> int \<Rightarrow> int \<Rightarrow> error + KnapsackSolver" where
  "KnapsackSolver_constructor its cap pop maxit =
     (case new_uniform_int_distribution 0 (int (length its) - 1) of
        Inl e \<Rightarrow> Inl e
      | Inr breeding \<Rightarrow>
          if in_int (pop - 1) then
            (case new_uniform_int_distribution 0 (pop - 1) of
               Inl e \<Rightarrow> Inl e
             | Inr population \<Rightarrow>
                 Inr \<lparr> items = its, capacity = cap, popSize = pop, maxIterations = maxit,
                       breedingDistribution = breeding,
                       populationDistribution = population \<rparr>)
          else Inl Overflow)"

section \<open>Fitness (lines 55 to 66)\<close>

text \<open>
  The loop \<open>for (i = 0; i < end; ++i)\<close> with its two accumulators.  \<open>ind[i]\<close> is read
  for every \<open>i\<close> below the catalog size, so an individual shorter than the catalog is
  read out of bounds.
\<close>

function fitness_loop :: "KnapsackSolver \<Rightarrow> Individual \<Rightarrow> nat \<Rightarrow> int \<Rightarrow> int \<Rightarrow> error + (int \<times> int)" where
  "fitness_loop s ind i fit weight =
     (if i < length (items s) then
        (if i < length ind then
           (let fit' = fit + item_value (items s ! i) * of_bool (ind ! i);
                weight' = weight + item_weight (items s ! i) * of_bool (ind ! i)
            in if in_int fit' \<and> in_int weight' then fitness_loop s ind (Suc i) fit' weight'
               else Inl Overflow)
         else Inl OutOfBounds)
      else Inr (fit, weight))"
  by pat_completeness auto
termination
  by (relation "measure (\<lambda>(s, ind, i, fit, weight). length (items s) - i)") auto

definition fitness :: "KnapsackSolver \<Rightarrow> Individual \<Rightarrow> error + int" where
  "fitness s ind =
     (case fitness_loop s ind 0 0 0 of
        Inl e \<Rightarrow> Inl e
      | Inr (fit, weight) \<Rightarrow> Inr (if weight > capacity s then 0 else fit))"

section \<open>Genetic operators\<close>

subsection \<open>Mutation (lines 71 to 76)\<close>

text \<open>\<open>child[mutatingIndex] = !child[mutatingIndex]\<close> on a copy of the parent.\<close>

definition mutate_at :: "int \<Rightarrow> Individual \<Rightarrow> error + Individual" where
  "mutate_at mutatingIndex parent =
     (if 0 \<le> mutatingIndex \<and> nat mutatingIndex < length parent
      then Inr (parent[nat mutatingIndex := \<not> parent ! nat mutatingIndex])
      else Inl OutOfBounds)"

definition mutate :: "KnapsackSolver \<Rightarrow> Individual \<Rightarrow> mt19937 \<Rightarrow> error + (Individual \<times> mt19937)" where
  "mutate s parent g =
     (case uniform_int (breedingDistribution s) g of
        Inl e \<Rightarrow> Inl e
      | Inr (mutatingIndex, g') \<Rightarrow>
          (case mutate_at mutatingIndex parent of
             Inl e \<Rightarrow> Inl e
           | Inr child \<Rightarrow> Inr (child, g')))"

subsection \<open>Crossover (lines 82 to 92)\<close>

text \<open>
  \<open>copy_range child src i e\<close> is a loop \<open>for (; i < e; ++i) child[i] = src[i]\<close>.
  The first loop of \<open>crossover\<close> counts an \<open>int\<close> from 0 up to the crossover index, the
  second counts a \<open>std::size_t\<close> from the crossover index up to \<open>parent2.size()\<close>;
  the conversion of an \<open>int\<close> to the 64-bit \<open>size_t\<close> adds \<open>2 ^ 64\<close> to a negative
  value.  The child has the size of parent 1.
\<close>

definition size_t_of_int :: "int \<Rightarrow> nat" where
  "size_t_of_int k = (if k < 0 then nat (k + 2 ^ 64) else nat k)"

function copy_range :: "Individual \<Rightarrow> Individual \<Rightarrow> nat \<Rightarrow> nat \<Rightarrow> error + Individual" where
  "copy_range child src i e =
     (if i < e then
        (if i < length child \<and> i < length src
         then copy_range (child[i := src ! i]) src (Suc i) e
         else Inl OutOfBounds)
      else Inr child)"
  by pat_completeness auto
termination
  by (relation "measure (\<lambda>(child, src, i, e). e - i)") auto

definition crossover_at :: "int \<Rightarrow> Individual \<Rightarrow> Individual \<Rightarrow> error + Individual" where
  "crossover_at crossoverIndex parent1 parent2 =
     (case copy_range (replicate (length parent1) False) parent1 0 (nat crossoverIndex) of
        Inl e \<Rightarrow> Inl e
      | Inr child \<Rightarrow>
          copy_range child parent2 (size_t_of_int crossoverIndex) (length parent2))"

definition crossover :: "KnapsackSolver \<Rightarrow> Individual \<Rightarrow> Individual \<Rightarrow> mt19937 \<Rightarrow> error + (Individual \<times> mt19937)" where
  "crossover s parent1 parent2 g =
     (case uniform_int (breedingDistribution s) g of
        Inl e \<Rightarrow> Inl e
      | Inr (crossoverIndex, g') \<Rightarrow>
          (case crossover_at crossoverIndex parent1 parent2 of
             Inl e \<Rightarrow> Inl e
           | Inr child \<Rightarrow> Inr (child, g')))"

subsection \<open>Random individuals (lines 97 to 112) and the initial population (lines 117 to 123)\<close>

text \<open>
  The loop of \<open>generateIndividual\<close> with its state: the index, the running weight, the
  individual (all \<open>false\<close> at the start) and the random source.  The \<open>break\<close> returns the
  individual as it is, without setting gene \<open>i\<close>.
\<close>

function generateIndividual_loop :: "KnapsackSolver \<Rightarrow> nat \<Rightarrow> int \<Rightarrow> Individual \<Rightarrow> mt19937 \<Rightarrow> error + (Individual \<times> mt19937)" where
  "generateIndividual_loop s i weight ind g =
     (if i < length (items s) then
        (case uniform_int (breedingDistribution s) g of
           Inl e \<Rightarrow> Inl e
         | Inr (r, g') \<Rightarrow>
             if r mod 2 \<noteq> 0 then
               (let weight' = weight + item_weight (items s ! i)
                in if in_int weight' then
                     (if weight' > capacity s then Inr (ind, g')
                      else generateIndividual_loop s (Suc i) weight' (ind[i := True]) g')
                   else Inl Overflow)
             else generateIndividual_loop s (Suc i) weight ind g')
      else Inr (ind, g))"
  by pat_completeness auto
termination
  by (relation "measure (\<lambda>(s, i, weight, ind, g). length (items s) - i)") auto

definition generateIndividual :: "KnapsackSolver \<Rightarrow> mt19937 \<Rightarrow> error + (Individual \<times> mt19937)" where
  "generateIndividual s g =
     generateIndividual_loop s 0 0 (replicate (length (items s)) False) g"

text \<open>\<open>for (int i = 0; i < popSize; ++i) pop.push_back(generateIndividual())\<close>.\<close>

fun generateInitialPop_loop :: "KnapsackSolver \<Rightarrow> nat \<Rightarrow> Population \<Rightarrow> mt19937 \<Rightarrow> error + (Population \<times> mt19937)" where
  "generateInitialPop_loop s 0 pop g = Inr (pop, g)"
| "generateInitialPop_loop s (Suc n) pop g =
     (case generateIndividual s g of
        Inl e \<Rightarrow> Inl e
      | Inr (ind, g') \<Rightarrow> generateInitialPop_loop s n (pop @ [ind]) g')"

definition generateInitialPop :: "KnapsackSolver \<Rightarrow> mt19937 \<Rightarrow> error + (Population \<times> mt19937)" where
  "generateInitialPop s g = generateInitialPop_loop s (nat (popSize s)) [] g"

section \<open>Selection (lines 129 to 136)\<close>

text \<open>
  \<open>std::sort\<close> with the comparator \<open>fitness(lhs) > fitness(rhs)\<close>, then the first
  \<open>popSize\<close> elements.  A sort of two or more elements passes every element to the
  comparator, so the fitness of every individual of the pool is computed; a sort of
  fewer elements calls nothing.  \<open>std::sort\<close> leaves the order of equal elements
  open; the model sorts stably, which is one of the orders allowed.  \<open>the_fitness\<close>
  is the comparator's key; it is read only after \<open>first_error\<close> has found every
  fitness defined.  \<open>newPop.begin() + popSize\<close> has to lie inside the vector.
\<close>

fun first_error :: "KnapsackSolver \<Rightarrow> Population \<Rightarrow> error option" where
  "first_error s [] = None"
| "first_error s (x # xs) =
     (case fitness s x of Inl e \<Rightarrow> Some e | Inr v \<Rightarrow> first_error s xs)"

definition the_fitness :: "KnapsackSolver \<Rightarrow> Individual \<Rightarrow> int" where
  "the_fitness s x = (case fitness s x of Inl e \<Rightarrow> 0 | Inr v \<Rightarrow> v)"

definition sort_descending :: "KnapsackSolver \<Rightarrow> Population \<Rightarrow> error + Population" where
  "sort_descending s pop =
     (if length pop < 2 then Inr pop
      else (case first_error s pop of
              Some e \<Rightarrow> Inl e
            | None \<Rightarrow> Inr (sort_key (\<lambda>x. - the_fitness s x) pop)))"

definition naturalSelection :: "KnapsackSolver \<Rightarrow> Population \<Rightarrow> error + Population" where
  "naturalSelection s pop =
     (case sort_descending s pop of
        Inl e \<Rightarrow> Inl e
      | Inr newPop \<Rightarrow>
          if 0 \<le> popSize s \<and> nat (popSize s) \<le> length newPop
          then Inr (take (nat (popSize s)) newPop)
          else Inl OutOfBounds)"

section \<open>Breeding (lines 142 to 150)\<close>

text \<open>
  \<open>newPop.resize(n)\<close> cuts the copy of the population to \<open>n\<close> elements or fills it
  up with value-initialised individuals, which are empty vectors.  The argument is an
  \<open>int\<close>; a negative one is converted to a \<open>size_t\<close> beyond \<open>max_size()\<close>, and
  \<open>resize\<close> throws.
\<close>

definition resize :: "Population \<Rightarrow> int \<Rightarrow> error + Population" where
  "resize newPop n =
     (if 0 \<le> n then Inr (take (nat n) newPop @ replicate (nat n - length newPop) [])
      else Inl LengthError)"

text \<open>
  The range-for over \<open>pop\<close>.  The argument \<open>pop[populationDistribution(rng)]\<close> is
  evaluated before \<open>crossover\<close> is entered, so the population index is drawn before
  the crossover index.
\<close>

fun breed_loop :: "KnapsackSolver \<Rightarrow> Population \<Rightarrow> Population \<Rightarrow> Population \<Rightarrow> mt19937 \<Rightarrow> error + (Population \<times> mt19937)" where
  "breed_loop s pop [] newPop g = Inr (newPop, g)"
| "breed_loop s pop (individual # rest) newPop g =
     (case mutate s individual g of
        Inl e \<Rightarrow> Inl e
      | Inr (mutant, g1) \<Rightarrow>
          (case uniform_int (populationDistribution s) g1 of
             Inl e \<Rightarrow> Inl e
           | Inr (j, g2) \<Rightarrow>
               if 0 \<le> j \<and> nat j < length pop then
                 (case crossover s individual (pop ! nat j) g2 of
                    Inl e \<Rightarrow> Inl e
                  | Inr (child, g3) \<Rightarrow> breed_loop s pop rest (newPop @ [mutant, child]) g3)
               else Inl OutOfBounds))"

definition breed :: "KnapsackSolver \<Rightarrow> Population \<Rightarrow> mt19937 \<Rightarrow> error + (Population \<times> mt19937)" where
  "breed s pop g =
     (if in_int (popSize s * 3) then
        (case resize pop (popSize s * 3) of
           Inl e \<Rightarrow> Inl e
         | Inr newPop \<Rightarrow> breed_loop s pop pop newPop g)
      else Inl Overflow)"

section \<open>The solver loop (lines 155 to 163)\<close>

fun solve_loop :: "KnapsackSolver \<Rightarrow> nat \<Rightarrow> Population \<Rightarrow> mt19937 \<Rightarrow> error + (Population \<times> mt19937)" where
  "solve_loop s 0 generation g = Inr (generation, g)"
| "solve_loop s (Suc n) generation g =
     (case breed s generation g of
        Inl e \<Rightarrow> Inl e
      | Inr (nextGen, g') \<Rightarrow>
          (case naturalSelection s nextGen of
             Inl e \<Rightarrow> Inl e
           | Inr generation' \<Rightarrow> solve_loop s n generation' g'))"

text \<open>\<open>return generation[0]\<close> reads the first element; an empty generation has none.\<close>

definition solve :: "KnapsackSolver \<Rightarrow> mt19937 \<Rightarrow> error + Individual" where
  "solve s g =
     (case generateInitialPop s g of
        Inl e \<Rightarrow> Inl e
      | Inr (generation, g') \<Rightarrow>
          (case solve_loop s (nat (maxIterations s)) generation g' of
             Inl e \<Rightarrow> Inl e
           | Inr (generation', g'') \<Rightarrow>
               (case generation' of [] \<Rightarrow> Inl OutOfBounds | best # others \<Rightarrow> Inr best)))"

section \<open>Notions of the specification\<close>

text \<open>
  The sum of the values, and of the weights, of the selected genes of an individual:
  gene \<open>i\<close> belongs to item \<open>i\<close> of the catalog.
\<close>

definition selected_value :: "Item list \<Rightarrow> Individual \<Rightarrow> int" where
  "selected_value its ind = (\<Sum>(it, b)\<leftarrow>zip its ind. if b then item_value it else 0)"

definition selected_weight :: "Item list \<Rightarrow> Individual \<Rightarrow> int" where
  "selected_weight its ind = (\<Sum>(it, b)\<leftarrow>zip its ind. if b then item_weight it else 0)"

section \<open>Concrete inputs\<close>

text \<open>
  Three random sources: one that yields 0 for ever, one that yields 1 for ever, and
  one that yields 0, 0 and then 1 for ever.  The catalogs: the classical instance of the specification's end-to-end
  scenario, a catalog of one item, and a catalog of two items.
\<close>

definition zeros :: mt19937 where
  "zeros n = 0"

definition ones :: mt19937 where
  "ones n = 1"

definition zeros_then_ones :: mt19937 where
  "zeros_then_ones n = (if n < 2 then 0 else 1)"

definition classic_items :: "Item list" where
  "classic_items =
     [\<lparr>item_value = 60, item_weight = 10\<rparr>, \<lparr>item_value = 100, item_weight = 20\<rparr>,
      \<lparr>item_value = 120, item_weight = 30\<rparr>]"

definition one_item :: "Item list" where
  "one_item = [\<lparr>item_value = 1, item_weight = 1\<rparr>]"

definition two_items :: "Item list" where
  "two_items = [\<lparr>item_value = 5, item_weight = 1\<rparr>, \<lparr>item_value = 7, item_weight = 1\<rparr>]"

section \<open>Fitness is the value of a feasible selection, and zero otherwise\<close>

text \<open>
  The equations of the loops are unconditional equations of a function in terms of
  itself; they are unfolded by hand, one iteration at a time.
\<close>

declare fitness_loop.simps [simp del]

lemma sum_list_index_zip:
  assumes "k \<le> length xs" "k \<le> length ys"
  shows "(\<Sum>j\<leftarrow>[0..<k]. f (xs ! j) (ys ! j)) = (\<Sum>(x, y)\<leftarrow>zip (take k xs) ys. f x y)"
proof -
  let ?zs = "zip (take k xs) ys"
  have len: "length ?zs = k" using assms by simp
  have "map (\<lambda>j. f (xs ! j) (ys ! j)) [0..<k] = map (\<lambda>j. (\<lambda>(x, y). f x y) (?zs ! j)) [0..<length ?zs]"
    unfolding len using assms by (intro map_cong) auto
  also have "\<dots> = map (\<lambda>(x, y). f x y) (map ((!) ?zs) [0..<length ?zs])"
    by simp
  also have "\<dots> = map (\<lambda>(x, y). f x y) ?zs"
    by (simp only: map_nth)
  finally show ?thesis by simp
qed

lemma fitness_loop_sum:
  assumes "i \<le> length (items s)" "length (items s) \<le> length ind"
    and "\<And>k. i < k \<Longrightarrow> k \<le> length (items s) \<Longrightarrow>
           in_int (fit + (\<Sum>j\<leftarrow>[i..<k]. item_value (items s ! j) * of_bool (ind ! j))) \<and>
           in_int (weight + (\<Sum>j\<leftarrow>[i..<k]. item_weight (items s ! j) * of_bool (ind ! j)))"
  shows "fitness_loop s ind i fit weight =
           Inr (fit + (\<Sum>j\<leftarrow>[i..<length (items s)]. item_value (items s ! j) * of_bool (ind ! j)),
                weight + (\<Sum>j\<leftarrow>[i..<length (items s)]. item_weight (items s ! j) * of_bool (ind ! j)))"
  using assms
proof (induction "length (items s) - i" arbitrary: i fit weight)
  case 0
  then show ?case by (simp add: fitness_loop.simps)
next
  case (Suc n)
  then have lt: "i < length (items s)" "i < length ind" by auto
  let ?fit = "fit + item_value (items s ! i) * of_bool (ind ! i)"
  let ?weight = "weight + item_weight (items s ! i) * of_bool (ind ! i)"
  have ok: "in_int ?fit \<and> in_int ?weight"
    using Suc.prems(3) [of "Suc i"] lt by simp
  have step: "fitness_loop s ind i fit weight = fitness_loop s ind (Suc i) ?fit ?weight"
    using lt ok by (subst fitness_loop.simps) (simp add: Let_def)
  have rest: "fitness_loop s ind (Suc i) ?fit ?weight =
      Inr (?fit + (\<Sum>j\<leftarrow>[Suc i..<length (items s)]. item_value (items s ! j) * of_bool (ind ! j)),
           ?weight + (\<Sum>j\<leftarrow>[Suc i..<length (items s)]. item_weight (items s ! j) * of_bool (ind ! j)))"
  proof (rule Suc.hyps(1))
    show "n = length (items s) - Suc i" using Suc.hyps(2) by simp
    show "Suc i \<le> length (items s)" using lt by simp
    show "length (items s) \<le> length ind" by (rule Suc.prems(2))
    fix k assume k: "Suc i < k" "k \<le> length (items s)"
    then have "[i..<k] = i # [Suc i..<k]" by (simp add: upt_conv_Cons)
    with Suc.prems(3) [of k] k
    show "in_int (?fit + (\<Sum>j\<leftarrow>[Suc i..<k]. item_value (items s ! j) * of_bool (ind ! j))) \<and>
          in_int (?weight + (\<Sum>j\<leftarrow>[Suc i..<k]. item_weight (items s ! j) * of_bool (ind ! j)))"
      by (simp add: add.assoc)
  qed
  have "[i..<length (items s)] = i # [Suc i..<length (items s)]"
    using lt by (simp add: upt_conv_Cons)
  then show ?case using step rest by (simp add: add.assoc)
qed

lemma index_sum_selected_value:
  assumes "k \<le> length its" "k \<le> length ind"
  shows "(\<Sum>j\<leftarrow>[0..<k]. item_value (its ! j) * of_bool (ind ! j)) = selected_value (take k its) ind"
proof -
  have "(\<Sum>j\<leftarrow>[0..<k]. item_value (its ! j) * of_bool (ind ! j)) =
        (\<Sum>j\<leftarrow>[0..<k]. if ind ! j then item_value (its ! j) else 0)"
    by (intro arg_cong [where f = sum_list] map_cong) auto
  then show ?thesis
    using sum_list_index_zip [OF assms, of "\<lambda>x y. if y then item_value x else 0"]
    by (simp add: selected_value_def)
qed

lemma index_sum_selected_weight:
  assumes "k \<le> length its" "k \<le> length ind"
  shows "(\<Sum>j\<leftarrow>[0..<k]. item_weight (its ! j) * of_bool (ind ! j)) = selected_weight (take k its) ind"
proof -
  have "(\<Sum>j\<leftarrow>[0..<k]. item_weight (its ! j) * of_bool (ind ! j)) =
        (\<Sum>j\<leftarrow>[0..<k]. if ind ! j then item_weight (its ! j) else 0)"
    by (intro arg_cong [where f = sum_list] map_cong) auto
  then show ?thesis
    using sum_list_index_zip [OF assms, of "\<lambda>x y. if y then item_weight x else 0"]
    by (simp add: selected_weight_def)
qed

lemma fitness_in_range:
  assumes len: "length (items s) \<le> length ind"
    and rng: "\<And>k. k \<le> length (items s) \<Longrightarrow>
       in_int (selected_value (take k (items s)) ind) \<and> in_int (selected_weight (take k (items s)) ind)"
  shows "fitness s ind =
     Inr (if selected_weight (items s) ind \<le> capacity s then selected_value (items s) ind else 0)"
proof -
  have "fitness_loop s ind 0 0 0 =
      Inr (0 + (\<Sum>j\<leftarrow>[0..<length (items s)]. item_value (items s ! j) * of_bool (ind ! j)),
           0 + (\<Sum>j\<leftarrow>[0..<length (items s)]. item_weight (items s ! j) * of_bool (ind ! j)))"
  proof (rule fitness_loop_sum)
    fix k assume "0 < k" "k \<le> length (items s)"
    then show "in_int (0 + (\<Sum>j\<leftarrow>[0..<k]. item_value (items s ! j) * of_bool (ind ! j))) \<and>
               in_int (0 + (\<Sum>j\<leftarrow>[0..<k]. item_weight (items s ! j) * of_bool (ind ! j)))"
      using rng [of k] len by (simp add: index_sum_selected_value index_sum_selected_weight)
  qed (use len in simp_all)
  then show ?thesis
    using len by (simp add: fitness_def index_sum_selected_value index_sum_selected_weight)
qed

lemma selected_replicate_False:
  "selected_value its (replicate n False) = 0" "selected_weight its (replicate n False) = 0"
proof -
  have "(\<Sum>(it, b)\<leftarrow>zip its (replicate n False). if b then f it else (0::int)) = 0" for f
  proof (induction its arbitrary: n)
    case Nil
    then show ?case by simp
  next
    case (Cons it its)
    then show ?case by (cases n) simp_all
  qed
  then show "selected_value its (replicate n False) = 0" "selected_weight its (replicate n False) = 0"
    by (simp_all add: selected_value_def selected_weight_def)
qed


text \<open>
  Claim C6.  For an individual as long as the catalog, \<open>fitness\<close> returns the sum of
  the values of the selected genes when the sum of their weights is at most the
  capacity, and 0 when that sum exceeds the capacity, whatever the value accumulated;
  the fitness of the individual with no gene selected is 0.  The running sums of the
  loop are \<open>int\<close> variables: the hypothesis says that they stay in the range of
  \<open>int\<close>, which is the condition under which the additions of the loop are defined.
\<close>

theorem fitness_value_or_zero:
  assumes "length ind = length (items s)"
    and "\<forall>k\<le>length (items s).
           in_int (selected_value (take k (items s)) ind) \<and>
           in_int (selected_weight (take k (items s)) ind)"
  shows "fitness s ind =
           Inr (if selected_weight (items s) ind \<le> capacity s
                then selected_value (items s) ind else 0) \<and>
         (capacity s < selected_weight (items s) ind \<longrightarrow> fitness s ind = Inr 0) \<and>
         fitness s (replicate (length (items s)) False) = Inr 0"
proof -
  have "fitness s ind =
      Inr (if selected_weight (items s) ind \<le> capacity s then selected_value (items s) ind else 0)"
    using assms by (intro fitness_in_range) simp_all
  moreover have "fitness s (replicate (length (items s)) False) = Inr 0"
    by (subst fitness_in_range) (simp_all add: in_int_def selected_replicate_False)
  ultimately show ?thesis by simp
qed

text \<open>
  The witness: the classical instance with capacity 50.  Items 2 and 3 weigh 50 and are
  worth 220; all three items weigh 60, which is over the capacity.
\<close>

lemma all_le_Suc: "(\<forall>k\<le>Suc n. P k) \<longleftrightarrow> (\<forall>k\<le>n. P k) \<and> P (Suc n)"
  by (auto simp: le_Suc_eq)

theorem fitness_value_or_zero_witness:
  "fitness (new_KnapsackSolver classic_items 50 10 200) [False, True, True] = Inr 220 \<and>
   fitness (new_KnapsackSolver classic_items 50 10 200) [True, True, True] = Inr 0 \<and>
   fitness (new_KnapsackSolver classic_items 50 10 200) [False, False, False] = Inr 0"
proof -
  let ?s = "new_KnapsackSolver classic_items 50 10 200"
  have len: "length ind = 3 \<Longrightarrow> length ind = length (items ?s)" for ind :: Individual
    by (simp add: new_KnapsackSolver_def classic_items_def)
  have r1: "\<forall>k\<le>length (items ?s).
      in_int (selected_value (take k (items ?s)) [False, True, True]) \<and>
      in_int (selected_weight (take k (items ?s)) [False, True, True])"
    by (simp add: new_KnapsackSolver_def classic_items_def all_le_Suc in_int_def
        selected_value_def selected_weight_def)
  have r2: "\<forall>k\<le>length (items ?s).
      in_int (selected_value (take k (items ?s)) [True, True, True]) \<and>
      in_int (selected_weight (take k (items ?s)) [True, True, True])"
    by (simp add: new_KnapsackSolver_def classic_items_def all_le_Suc in_int_def
        selected_value_def selected_weight_def)
  from fitness_value_or_zero [OF len r1] fitness_value_or_zero [OF len r2]
  show ?thesis
    by (simp add: new_KnapsackSolver_def classic_items_def selected_value_def
        selected_weight_def eval_nat_numeral)
qed

section \<open>Crossover splits the genome at the crossover index\<close>

declare copy_range.simps [simp del]

text \<open>
  One copy loop in closed form: the positions from \<open>i\<close> up to \<open>e\<close> are taken from
  the source, the others are left as they were.
\<close>

lemma copy_range_result:
  assumes "i \<le> e" "e \<le> length child" "e \<le> length src"
  shows "copy_range child src i e = Inr (take i child @ take (e - i) (drop i src) @ drop e child)"
  using assms
proof (induction "e - i" arbitrary: i child)
  case 0
  then show ?case by (simp add: copy_range.simps)
next
  case (Suc n)
  then have lt: "i < e" "i < length child" "i < length src" by auto
  have step: "copy_range child src i e = copy_range (child[i := src ! i]) src (Suc i) e"
    using lt by (subst copy_range.simps) simp
  have "copy_range (child[i := src ! i]) src (Suc i) e =
      Inr (take (Suc i) (child[i := src ! i]) @ take (e - Suc i) (drop (Suc i) src) @
           drop e (child[i := src ! i]))"
    using Suc.hyps(2) Suc.prems lt by (intro Suc.hyps(1)) simp_all
  moreover have "take (Suc i) (child[i := src ! i]) = take i child @ [src ! i]"
    using lt by (simp add: take_Suc_conv_app_nth)
  moreover have "drop e (child[i := src ! i]) = drop e child"
    using lt by simp
  moreover have "take (e - i) (drop i src) = src ! i # take (e - Suc i) (drop (Suc i) src)"
  proof -
    have "drop i src = src ! i # drop (Suc i) src"
      using lt by (simp add: Cons_nth_drop_Suc)
    moreover have "e - i = Suc (e - Suc i)" using lt by simp
    ultimately show ?thesis by simp
  qed
  ultimately show ?case using step by simp
qed

lemma crossover_at_result:
  assumes "length parent1 = n" "length parent2 = n" "0 \<le> k" "k \<le> int n"
  shows "crossover_at k parent1 parent2 = Inr (take (nat k) parent1 @ drop (nat k) parent2)"
proof -
  have k: "nat k \<le> n" using assms by simp
  have first: "copy_range (replicate (length parent1) False) parent1 0 (nat k) =
      Inr (take (nat k) parent1 @ drop (nat k) (replicate n False))"
    using assms k by (subst copy_range_result) simp_all
  have second: "copy_range (take (nat k) parent1 @ drop (nat k) (replicate n False)) parent2 (nat k) n =
      Inr (take (nat k) parent1 @ drop (nat k) parent2)"
    using assms k by (subst copy_range_result) (simp_all add: min_absorb2)
  show ?thesis
    using assms first second by (simp add: crossover_at_def size_t_of_int_def)
qed

text \<open>
  A draw from the breeding distribution of a solver with a catalog of \<open>n \<ge> 1\<close> items
  yields the index \<open>g 0 mod n\<close> of the catalog and moves the random source on by one
  number.
\<close>

lemma uniform_int_breeding:
  assumes "its \<noteq> []"
  shows "uniform_int (breedingDistribution (new_KnapsackSolver its cap pop maxit)) g =
           Inr (int (g 0 mod length its), g \<circ> Suc)"
proof -
  have "0 < length its" using assms by simp
  then show ?thesis
    by (simp add: new_KnapsackSolver_def uniform_int_def)
qed

text \<open>
  Claim C8.  For two parents of length \<open>n\<close> and a crossover index \<open>k\<close> with
  \<open>0 \<le> k < n\<close>, the child has length \<open>n\<close>, its genes below \<open>k\<close> are those of
  parent 1 and its genes from \<open>k\<close> on are those of parent 2; crossing a parent with
  itself gives the parent back.  For a solver whose catalog has \<open>n\<close> items, the call
  \<open>crossover\<close> returns that child for the index it draws, \<open>g 0 mod n\<close>: its genes
  below the drawn index are those of parent 1, the others those of parent 2; and for
  equal parents it returns the parent for every random source.
\<close>

theorem crossover_boundary:
  assumes "length parent1 = n" "length parent2 = n" "0 \<le> k" "k < int n"
  shows "(\<exists>child. crossover_at k parent1 parent2 = Inr child \<and> length child = n \<and>
            (\<forall>i<nat k. child ! i = parent1 ! i) \<and>
            (\<forall>i. nat k \<le> i \<and> i < n \<longrightarrow> child ! i = parent2 ! i)) \<and>
         crossover_at k parent1 parent1 = Inr parent1 \<and>
         (length its = n \<longrightarrow>
            (\<exists>child. crossover (new_KnapsackSolver its cap pop maxit) parent1 parent2 g =
                      Inr (child, g \<circ> Suc) \<and>
                    child = take (g 0 mod n) parent1 @ drop (g 0 mod n) parent2 \<and>
                    length child = n \<and>
                    (\<forall>i<g 0 mod n. child ! i = parent1 ! i) \<and>
                    (\<forall>i. g 0 mod n \<le> i \<and> i < n \<longrightarrow> child ! i = parent2 ! i)) \<and>
            crossover (new_KnapsackSolver its cap pop maxit) parent1 parent1 g =
              Inr (parent1, g \<circ> Suc))"
proof -
  have at: "crossover_at k' p q = Inr (take (nat k') p @ drop (nat k') q)"
    if "length p = n" "length q = n" "0 \<le> k'" "k' < int n" for k' p q
    using that by (intro crossover_at_result [where n = n]) simp_all
  have genes: "length (take j p @ drop j q) = n \<and>
      (\<forall>i<j. (take j p @ drop j q) ! i = p ! i) \<and>
      (\<forall>i. j \<le> i \<and> i < n \<longrightarrow> (take j p @ drop j q) ! i = q ! i)"
    if "length p = n" "length q = n" "j < n" for j p q
    using that by (auto simp: nth_append min_absorb2)
  have kn: "nat k < n" using assms by simp
  have part1: "\<exists>child. crossover_at k parent1 parent2 = Inr child \<and> length child = n \<and>
            (\<forall>i<nat k. child ! i = parent1 ! i) \<and>
            (\<forall>i. nat k \<le> i \<and> i < n \<longrightarrow> child ! i = parent2 ! i)"
    using at [OF assms] genes [OF assms(1,2) kn] by simp
  have part2: "crossover_at k parent1 parent1 = Inr parent1"
    using at [OF assms(1) assms(1) assms(3,4)] by simp
  have part3: "(\<exists>child. crossover (new_KnapsackSolver its cap pop maxit) parent1 parent2 g =
                      Inr (child, g \<circ> Suc) \<and>
                    child = take (g 0 mod n) parent1 @ drop (g 0 mod n) parent2 \<and>
                    length child = n \<and>
                    (\<forall>i<g 0 mod n. child ! i = parent1 ! i) \<and>
                    (\<forall>i. g 0 mod n \<le> i \<and> i < n \<longrightarrow> child ! i = parent2 ! i)) \<and>
            crossover (new_KnapsackSolver its cap pop maxit) parent1 parent1 g =
              Inr (parent1, g \<circ> Suc)" if n: "length its = n"
  proof -
    let ?j = "g 0 mod n"
    have "its \<noteq> []" using n kn by auto
    from uniform_int_breeding [OF this, of cap pop maxit g] n
    have draw: "uniform_int (breedingDistribution (new_KnapsackSolver its cap pop maxit)) g =
        Inr (int ?j, g \<circ> Suc)"
      by simp
    have j: "(0::int) \<le> int ?j" "int ?j < int n" "?j < n" using kn by simp_all
    have "crossover (new_KnapsackSolver its cap pop maxit) parent1 parent2 g =
        Inr (take ?j parent1 @ drop ?j parent2, g \<circ> Suc)"
      using draw at [OF assms(1,2) j(1,2)] by (simp add: crossover_def)
    moreover have "crossover (new_KnapsackSolver its cap pop maxit) parent1 parent1 g =
        Inr (parent1, g \<circ> Suc)"
      using draw at [OF assms(1) assms(1) j(1,2)] by (simp add: crossover_def)
    ultimately show ?thesis using genes [OF assms(1,2) j(3)] by blast
  qed
  show ?thesis using part1 part2 part3 by blast
qed

text \<open>
  The witness: parents of three genes.  The index 1 is given to \<open>crossover_at\<close>, and
  it is drawn by \<open>crossover\<close> from the random source that yields 1: the child of
  the all-selected and the all-unselected parent keeps gene 0 of parent 1 and takes
  genes 1 and 2 of parent 2.
\<close>

theorem crossover_boundary_witness:
  "crossover_at 1 [True, True, True] [False, False, False] = Inr [True, False, False] \<and>
   crossover_at 1 [True, False, True] [True, False, True] = Inr [True, False, True] \<and>
   crossover (new_KnapsackSolver classic_items 50 10 200) [True, True, True] [False, False, False] ones
     = Inr ([True, False, False], ones \<circ> Suc) \<and>
   crossover (new_KnapsackSolver classic_items 50 10 200) [True, False, True] [True, False, True] ones
     = Inr ([True, False, True], ones \<circ> Suc)"
proof -
  have a: "length [True, True, True] = (3::nat)" "length [False, False, False] = (3::nat)"
    "length [True, False, True] = (3::nat)" "(0::int) \<le> 1" "(1::int) < int 3"
    by simp_all
  have b: "length classic_items = 3" by (simp add: classic_items_def)
  have m: "ones 0 mod 3 = 1" by (simp add: ones_def)
  from crossover_boundary [OF a(1) a(2) a(4) a(5), of classic_items 50 10 200 ones]
  obtain child where c: "crossover_at 1 [True, True, True] [False, False, False] = Inr child"
    "length child = 3" "\<forall>i<nat 1. child ! i = [True, True, True] ! i"
    "\<forall>i. nat 1 \<le> i \<and> i < 3 \<longrightarrow> child ! i = [False, False, False] ! i"
    by blast
  have "child ! 0 = True" "child ! 1 = False" "child ! 2 = False"
    using c(3,4) by (simp_all add: nth_Cons')
  then have "child = [True, False, False]"
    using c(2) by (auto simp: list_eq_iff_nth_eq less_Suc_eq eval_nat_numeral nth_Cons')
  moreover have "crossover (new_KnapsackSolver classic_items 50 10 200)
      [True, True, True] [False, False, False] ones = Inr ([True, False, False], ones \<circ> Suc)"
    using crossover_boundary [OF a(1) a(2) a(4) a(5), of classic_items 50 10 200 ones] b
    by (simp add: m)
  ultimately show ?thesis
    using c(1) crossover_boundary [OF a(3) a(3) a(4) a(5), of classic_items 50 10 200 ones] b
    by simp
qed

section \<open>Selection keeps the fittest\<close>

lemma first_error_None:
  "first_error s pop = None \<longleftrightarrow> (\<forall>x\<in>set pop. \<exists>v. fitness s x = Inr v)"
  by (induction pop) (auto split: sum.splits)

lemma fitness_the_fitness: "fitness s x = Inr v \<Longrightarrow> the_fitness s x = v"
  by (simp add: the_fitness_def)

lemma sort_descending_sorted:
  assumes "\<forall>x\<in>set pop. \<exists>v. fitness s x = Inr v"
  shows "\<exists>newPop. sort_descending s pop = Inr newPop \<and> mset newPop = mset pop \<and>
           sorted_wrt (\<lambda>a b. the_fitness s b \<le> the_fitness s a) newPop"
proof (cases "length pop < 2")
  case True
  then have "pop = [] \<or> (\<exists>x. pop = [x])"
    by (cases pop) (auto simp: length_Suc_conv)
  then have "sorted_wrt (\<lambda>a b. the_fitness s b \<le> the_fitness s a) pop" by auto
  with True show ?thesis by (simp add: sort_descending_def)
next
  case False
  let ?f = "\<lambda>x. - the_fitness s x"
  have "first_error s pop = None" using assms by (simp add: first_error_None)
  with False have "sort_descending s pop = Inr (sort_key ?f pop)"
    by (simp add: sort_descending_def)
  moreover have "sorted (map ?f (sort_key ?f pop))" by (rule sorted_sort_key)
  then have "sorted_wrt (\<lambda>a b. the_fitness s b \<le> the_fitness s a) (sort_key ?f pop)"
    by (simp add: sorted_map)
  ultimately show ?thesis by simp
qed

text \<open>
  Claim C7.  For a pool of at least \<open>popSize\<close> individuals, each with a defined fitness,
  \<open>naturalSelection\<close> returns exactly \<open>popSize\<close> individuals, in an order in which the
  fitness never increases; together with the discarded individuals they are the pool,
  and no discarded individual is fitter than a returned one.  The proof uses of the sort
  only that its result is a permutation of the pool in descending order of fitness,
  which holds of every order \<open>std::sort\<close> may choose among equal elements.
\<close>

theorem naturalSelection_keeps_the_fittest:
  assumes "0 \<le> popSize s" "nat (popSize s) \<le> length pool"
    and "\<forall>x\<in>set pool. \<exists>v. fitness s x = Inr v"
  shows "\<exists>selected discarded.
           naturalSelection s pool = Inr selected \<and>
           length selected = nat (popSize s) \<and>
           mset selected + mset discarded = mset pool \<and>
           sorted_wrt (\<lambda>a b. the_fitness s b \<le> the_fitness s a) selected \<and>
           (\<forall>a\<in>set selected. \<forall>b\<in>set discarded. the_fitness s b \<le> the_fitness s a) \<and>
           (\<forall>x\<in>set pool. fitness s x = Inr (the_fitness s x))"
proof -
  from sort_descending_sorted [OF assms(3)] obtain newPop where
    srt: "sort_descending s pool = Inr newPop" and perm: "mset newPop = mset pool"
    and desc: "sorted_wrt (\<lambda>a b. the_fitness s b \<le> the_fitness s a) newPop"
    by blast
  let ?P = "nat (popSize s)"
  have len: "length newPop = length pool" using perm by (metis size_mset)
  have sel: "naturalSelection s pool = Inr (take ?P newPop)"
    using srt assms(1,2) len by (simp add: naturalSelection_def)
  have split: "sorted_wrt (\<lambda>a b. the_fitness s b \<le> the_fitness s a) (take ?P newPop @ drop ?P newPop)"
    using desc by simp
  have "mset (take ?P newPop) + mset (drop ?P newPop) = mset pool"
    using perm by (metis append_take_drop_id mset_append)
  moreover have "length (take ?P newPop) = ?P" using assms(2) len by simp
  moreover have "sorted_wrt (\<lambda>a b. the_fitness s b \<le> the_fitness s a) (take ?P newPop)"
    using split unfolding sorted_wrt_append by blast
  moreover have "\<forall>a\<in>set (take ?P newPop). \<forall>b\<in>set (drop ?P newPop). the_fitness s b \<le> the_fitness s a"
    using split unfolding sorted_wrt_append by blast
  moreover have "\<forall>x\<in>set pool. fitness s x = Inr (the_fitness s x)"
    using assms(3) by (auto simp: the_fitness_def)
  ultimately show ?thesis using sel by blast
qed

text \<open>
  The witness: the four individuals over the catalog of two items, capacity 1 and a
  target size of 2.  The individual with both genes selected is over the capacity.
\<close>

lemma fitness_two_items:
  "fitness (new_KnapsackSolver two_items 1 2 0) [True, False] = Inr 5"
  "fitness (new_KnapsackSolver two_items 1 2 0) [False, False] = Inr 0"
  "fitness (new_KnapsackSolver two_items 1 2 0) [True, True] = Inr 0"
  "fitness (new_KnapsackSolver two_items 1 2 0) [False, True] = Inr 7"
  by (simp_all add: fitness_def fitness_loop.simps new_KnapsackSolver_def two_items_def in_int_def)

theorem naturalSelection_keeps_the_fittest_witness:
  "naturalSelection (new_KnapsackSolver two_items 1 2 0)
       [[True, False], [False, False], [True, True], [False, True]] =
     Inr [[False, True], [True, False]] \<and>
   (\<exists>selected discarded.
      naturalSelection (new_KnapsackSolver two_items 1 2 0)
          [[True, False], [False, False], [True, True], [False, True]] = Inr selected \<and>
      length selected = 2 \<and>
      mset selected + mset discarded =
        mset [[True, False], [False, False], [True, True], [False, True]])"
proof -
  let ?s = "new_KnapsackSolver two_items 1 2 0"
  let ?pool = "[[True, False], [False, False], [True, True], [False, True]]"
  have h1: "0 \<le> popSize ?s" and h2: "nat (popSize ?s) \<le> length ?pool"
    by (simp_all add: new_KnapsackSolver_def)
  have h3: "\<forall>x\<in>set ?pool. \<exists>v. fitness ?s x = Inr v"
    by (simp add: fitness_two_items)
  have P: "nat (popSize ?s) = 2" by (simp add: new_KnapsackSolver_def)
  have "naturalSelection ?s ?pool = Inr [[False, True], [True, False]]"
    by (simp add: naturalSelection_def sort_descending_def the_fitness_def fitness_two_items)
       (simp add: new_KnapsackSolver_def)
  moreover from naturalSelection_keeps_the_fittest [OF h1 h2 h3]
  have "\<exists>selected discarded. naturalSelection ?s ?pool = Inr selected \<and>
      length selected = 2 \<and> mset selected + mset discarded = mset ?pool"
    unfolding P by blast
  ultimately show ?thesis by blast
qed

section \<open>Random individuals are feasible\<close>

declare generateIndividual_loop.simps [simp del]

text \<open>Selecting a gene that was not selected adds the weight of its item.\<close>

lemma selected_weight_set_gene:
  "i < length its \<Longrightarrow> i < length ind \<Longrightarrow> \<not> ind ! i \<Longrightarrow>
     selected_weight its (ind[i := True]) = selected_weight its ind + item_weight (its ! i)"
proof (induction its arbitrary: i ind)
  case Nil
  then show ?case by simp
next
  case (Cons it its)
  then obtain b bs where ind: "ind = b # bs" by (cases ind) auto
  show ?case
  proof (cases i)
    case 0
    with Cons.prems ind show ?thesis by (simp add: selected_weight_def)
  next
    case (Suc j)
    with Cons.prems ind have "selected_weight its (bs[j := True]) = selected_weight its bs + item_weight (its ! j)"
      by (intro Cons.IH) simp_all
    with Suc ind show ?thesis by (simp add: selected_weight_def)
  qed
qed

text \<open>
  The invariant of the loop of \<open>generateIndividual\<close>: the running weight is the weight
  of the selected genes, it is at most the capacity, and no gene from \<open>i\<close> on is
  selected yet.
\<close>

lemma generateIndividual_loop_feasible:
  assumes "generateIndividual_loop s i weight ind g = Inr (ind', g')"
    and "length ind = length (items s)"
    and "selected_weight (items s) ind = weight"
    and "weight \<le> capacity s"
    and "\<forall>j. i \<le> j \<and> j < length (items s) \<longrightarrow> \<not> ind ! j"
  shows "length ind' = length (items s) \<and> selected_weight (items s) ind' \<le> capacity s"
  using assms
proof (induction "length (items s) - i" arbitrary: i weight ind g)
  case 0
  then show ?case by (simp add: generateIndividual_loop.simps)
next
  case (Suc n)
  then have lt: "i < length (items s)" by simp
  from Suc.prems(1) lt obtain r g1 where
    draw: "uniform_int (breedingDistribution s) g = Inr (r, g1)"
    by (subst (asm) generateIndividual_loop.simps) (auto split: sum.splits)
  let ?w = "weight + item_weight (items s ! i)"
  have n: "n = length (items s) - Suc i" using Suc.hyps(2) by simp
  show ?case
  proof (cases "r mod 2 \<noteq> 0")
    case False
    with Suc.prems(1) lt draw
    have "generateIndividual_loop s (Suc i) weight ind g1 = Inr (ind', g')"
      by (subst (asm) generateIndividual_loop.simps) simp
    then show ?thesis
      using Suc.prems(2-5) by (intro Suc.hyps(1) [OF n, of weight ind g1]) auto
  next
    case True
    show ?thesis
    proof (cases "?w > capacity s")
      case over: True
      with Suc.prems(1) lt draw True have "ind' = ind"
        by (subst (asm) generateIndividual_loop.simps) (simp add: Let_def split: if_splits)
      with Suc.prems show ?thesis by simp
    next
      case fits: False
      with Suc.prems(1) lt draw True
      have rec: "generateIndividual_loop s (Suc i) ?w (ind[i := True]) g1 = Inr (ind', g')"
        by (subst (asm) generateIndividual_loop.simps) (simp add: Let_def split: if_splits)
      have "\<not> ind ! i" using Suc.prems(5) lt by simp
      then have sw: "selected_weight (items s) (ind[i := True]) = ?w"
        using lt Suc.prems(2,3) by (simp add: selected_weight_set_gene)
      show ?thesis
      proof (rule Suc.hyps(1) [OF n rec])
        show "length (ind[i := True]) = length (items s)" using Suc.prems(2) by simp
        show "selected_weight (items s) (ind[i := True]) = ?w" by (rule sw)
        show "?w \<le> capacity s" using fits by simp
        show "\<forall>j. Suc i \<le> j \<and> j < length (items s) \<longrightarrow> \<not> ind[i := True] ! j"
          using Suc.prems(5) by auto
      qed
    qed
  qed
qed

text \<open>
  The loop returns: with weights that are not negative and a capacity that leaves room
  for one more item below \<open>2 ^ 31\<close>, the running weight never overflows.
\<close>

lemma generateIndividual_loop_returns:
  assumes "i < length (items s) \<longrightarrow> fst (breedingDistribution s) \<le> snd (breedingDistribution s)"
    and "\<forall>it\<in>set (items s). 0 \<le> item_weight it \<and> capacity s + item_weight it < 2 ^ 31"
    and "0 \<le> weight" "weight \<le> capacity s"
  shows "\<exists>ind' g'. generateIndividual_loop s i weight ind g = Inr (ind', g')"
  using assms
proof (induction "length (items s) - i" arbitrary: i weight ind g)
  case 0
  then show ?case by (simp add: generateIndividual_loop.simps)
next
  case (Suc n)
  then have lt: "i < length (items s)" by simp
  obtain a b where d: "breedingDistribution s = (a, b)" by (cases "breedingDistribution s")
  with Suc.prems(1) lt have ab: "a \<le> b" by simp
  define r where "r = a + int (g 0 mod nat (b - a + 1))"
  have draw: "uniform_int (breedingDistribution s) g = Inr (r, g \<circ> Suc)"
    using ab d by (simp add: uniform_int_def r_def)
  have valid: "Suc i < length (items s) \<longrightarrow> fst (breedingDistribution s) \<le> snd (breedingDistribution s)"
    using ab d by simp
  have n: "n = length (items s) - Suc i" using Suc.hyps(2) by simp
  let ?w = "weight + item_weight (items s ! i)"
  have "items s ! i \<in> set (items s)" using lt by simp
  with Suc.prems(2) have w: "0 \<le> item_weight (items s ! i)" "capacity s + item_weight (items s ! i) < 2 ^ 31"
    by auto
  with Suc.prems(3,4) have ok: "in_int ?w" "0 \<le> ?w" by (simp_all add: in_int_def)
  show ?case
  proof (cases "r mod 2 \<noteq> 0")
    case False
    from Suc.hyps(1) [OF n valid Suc.prems(2,3,4), of ind "g \<circ> Suc"]
    show ?thesis using lt draw False by (subst generateIndividual_loop.simps) simp
  next
    case True
    show ?thesis
    proof (cases "?w > capacity s")
      case over: True
      then show ?thesis
        using lt draw True ok by (subst generateIndividual_loop.simps) (simp add: Let_def)
    next
      case fits: False
      then have "?w \<le> capacity s" by simp
      from Suc.hyps(1) [OF n valid Suc.prems(2) ok(2) this, of "ind[i := True]" "g \<circ> Suc"]
      show ?thesis
        using lt draw True ok fits by (subst generateIndividual_loop.simps) (simp add: Let_def)
    qed
  qed
qed

lemma generateInitialPop_loop_all:
  assumes "generateInitialPop_loop s n pop g = Inr (pop', g')"
    and "\<forall>x\<in>set pop. P x"
    and "\<And>ind g g'. generateIndividual s g = Inr (ind, g') \<Longrightarrow> P ind"
  shows "(\<forall>x\<in>set pop'. P x) \<and> length pop' = length pop + n \<and> take (length pop) pop' = pop"
  using assms(1,2)
proof (induction n arbitrary: pop g)
  case 0
  then show ?case by simp
next
  case (Suc n)
  from Suc.prems(1) obtain ind g1 where
    gen: "generateIndividual s g = Inr (ind, g1)"
    and rec: "generateInitialPop_loop s n (pop @ [ind]) g1 = Inr (pop', g')"
    by (auto split: sum.splits)
  have "\<forall>x\<in>set (pop @ [ind]). P x" using Suc.prems(2) assms(3) [OF gen] by simp
  from Suc.IH [OF rec this] have *: "(\<forall>x\<in>set pop'. P x)" "length pop' = length (pop @ [ind]) + n"
    "take (length (pop @ [ind])) pop' = pop @ [ind]" by simp_all
  have "take (length pop) pop' = take (length pop) (take (length (pop @ [ind])) pop')"
    by (simp add: min_absorb1)
  also have "\<dots> = pop" unfolding *(3) by simp
  finally show ?case using * by simp
qed

lemma generateInitialPop_loop_returns:
  assumes "\<And>g. \<exists>ind g'. generateIndividual s g = Inr (ind, g')"
  shows "\<exists>pop' g'. generateInitialPop_loop s n pop g = Inr (pop', g')"
proof (induction n arbitrary: pop g)
  case 0
  then show ?case by simp
next
  case (Suc n)
  from assms [of g] obtain ind g1 where "generateIndividual s g = Inr (ind, g1)" by blast
  with Suc [of "pop @ [ind]" g1] show ?case by simp
qed

text \<open>
  Claim C10.  With a capacity that is not negative, every individual that
  \<open>generateIndividual\<close> produces has the length of the catalog and is feasible: the
  weights of its selected genes sum to at most the capacity.  So is every individual
  of the initial population, which has \<open>popSize\<close> members.  With item weights that are
  not negative (and small enough for the running weight to stay an \<open>int\<close>) both
  functions do produce a result, for every random source.
\<close>

theorem generateIndividual_feasible:
  assumes "0 \<le> cap"
  shows "(\<forall>ind g'. generateIndividual (new_KnapsackSolver its cap pop maxit) g = Inr (ind, g') \<longrightarrow>
            length ind = length its \<and> selected_weight its ind \<le> cap) \<and>
         (\<forall>generation g'. generateInitialPop (new_KnapsackSolver its cap pop maxit) g = Inr (generation, g') \<longrightarrow>
            length generation = nat pop \<and>
            (\<forall>ind\<in>set generation. length ind = length its \<and> selected_weight its ind \<le> cap)) \<and>
         ((\<forall>it\<in>set its. 0 \<le> item_weight it \<and> cap + item_weight it < 2 ^ 31) \<longrightarrow>
            (\<exists>ind g'. generateIndividual (new_KnapsackSolver its cap pop maxit) g = Inr (ind, g')) \<and>
            (\<exists>generation g'. generateInitialPop (new_KnapsackSolver its cap pop maxit) g = Inr (generation, g')))"
proof -
  let ?s = "new_KnapsackSolver its cap pop maxit"
  have sel [simp]: "items ?s = its" "capacity ?s = cap" "popSize ?s = pop"
    "breedingDistribution ?s = (0, int (length its) - 1)"
    by (simp_all add: new_KnapsackSolver_def)
  have one: "length ind = length its \<and> selected_weight its ind \<le> cap"
    if "generateIndividual ?s g0 = Inr (ind, g')" for ind g0 g'
    using generateIndividual_loop_feasible [of ?s 0 0 "replicate (length its) False" g0 ind g']
      that assms by (simp add: generateIndividual_def selected_replicate_False)
  have pop: "length generation = nat pop \<and>
      (\<forall>ind\<in>set generation. length ind = length its \<and> selected_weight its ind \<le> cap)"
    if "generateInitialPop ?s g = Inr (generation, g')" for generation g'
    using generateInitialPop_loop_all [of ?s "nat pop" "[]" g generation g'
        "\<lambda>ind. length ind = length its \<and> selected_weight its ind \<le> cap"] that one
    by (simp add: generateInitialPop_def)
  have ret: "(\<exists>ind g'. generateIndividual ?s g = Inr (ind, g')) \<and>
      (\<exists>generation g'. generateInitialPop ?s g = Inr (generation, g'))"
    if w: "\<forall>it\<in>set its. 0 \<le> item_weight it \<and> cap + item_weight it < 2 ^ 31"
  proof -
    have ind: "\<exists>ind g'. generateIndividual ?s g0 = Inr (ind, g')" for g0
      unfolding generateIndividual_def
      using w assms by (intro generateIndividual_loop_returns) auto
    from generateInitialPop_loop_returns [of ?s "nat pop" "[]" g, OF ind] ind [of g]
    show ?thesis by (simp add: generateInitialPop_def)
  qed
  show ?thesis using one pop ret by blast
qed

text \<open>
  The witness: the catalog of two items with capacity 2 and a population of two.  The
  random source makes the first individual empty and the second one full.
\<close>

lemma two_items_population:
  "generateInitialPop (new_KnapsackSolver two_items 2 2 0) zeros_then_ones =
     Inr ([[False, False], [True, True]], zeros_then_ones \<circ> Suc \<circ> Suc \<circ> Suc \<circ> Suc)"
  by (simp add: generateInitialPop_def generateIndividual_def generateIndividual_loop.simps
      new_KnapsackSolver_def two_items_def uniform_int_def zeros_then_ones_def in_int_def
      eval_nat_numeral comp_def)

theorem generateIndividual_feasible_witness:
  "generateInitialPop (new_KnapsackSolver two_items 2 2 0) zeros_then_ones =
     Inr ([[False, False], [True, True]], zeros_then_ones \<circ> Suc \<circ> Suc \<circ> Suc \<circ> Suc) \<and>
   length [True, True] = length two_items \<and> selected_weight two_items [True, True] \<le> 2 \<and>
   selected_weight two_items [False, False] \<le> 2 \<and>
   (\<exists>ind g'. generateIndividual (new_KnapsackSolver two_items 2 2 0) zeros_then_ones = Inr (ind, g'))"
proof -
  have cap: "(0::int) \<le> 2" by simp
  have w: "\<forall>it\<in>set two_items. 0 \<le> item_weight it \<and> 2 + item_weight it < 2 ^ 31"
    by (simp add: two_items_def)
  from generateIndividual_feasible [OF cap, of two_items 2 0 zeros_then_ones] w two_items_population
  show ?thesis by auto
qed


section \<open>The constructor and a run without iterations\<close>

lemmas eval_defs = new_KnapsackSolver_def one_item_def two_items_def zeros_def zeros_then_ones_def
  uniform_int_def in_int_def comp_def

text \<open>
  With an iteration count of 0 or less the loop of \<open>solve\<close> is not entered: the result
  is element 0 of the initial population, as generated.
\<close>

lemma solve_no_iterations:
  assumes "maxIterations s \<le> 0"
  shows "solve s g =
     (case generateInitialPop s g of
        Inl e \<Rightarrow> Inl e
      | Inr (generation, g') \<Rightarrow>
          (case generation of [] \<Rightarrow> Inl OutOfBounds | best # others \<Rightarrow> Inr best))"
  using assms by (simp add: solve_def split: sum.splits)

text \<open>
  On members with a population size of 0 or less the initial population is empty, every
  later generation is empty too (or \<open>resize\<close> throws), and \<open>generation[0]\<close> does
  not exist.
\<close>

lemma solve_loop_no_population:
  assumes "popSize s \<le> 0"
  shows "(\<exists>e. solve_loop s n [] g = Inl e) \<or> solve_loop s n [] g = Inr ([], g)"
proof (induction n)
  case 0
  then show ?case by simp
next
  case (Suc n)
  show ?case
  proof (cases "popSize s = 0")
    case True
    then have "breed s [] g = Inr ([], g)"
      by (simp add: breed_def resize_def in_int_def)
    moreover have "naturalSelection s [] = Inr []"
      using True by (simp add: naturalSelection_def sort_descending_def)
    ultimately show ?thesis using Suc by simp
  next
    case False
    with assms have "popSize s * 3 < 0" by simp
    then have "\<exists>e. breed s [] g = Inl e"
      by (simp add: breed_def resize_def)
    then show ?thesis by auto
  qed
qed

lemma solve_no_population:
  assumes "popSize s \<le> 0"
  shows "\<exists>e. solve s g = Inl e"
proof -
  have init: "generateInitialPop s g = Inr ([], g)"
    using assms by (simp add: generateInitialPop_def)
  from solve_loop_no_population [OF assms, of "nat (maxIterations s)" g]
  show ?thesis using init by (auto simp: solve_def)
qed

text \<open>
  The initial population does not depend on the iteration count, so a negative iteration
  count gives the run of the iteration count 0.
\<close>

lemma generateIndividual_loop_maxIterations:
  "generateIndividual_loop (s\<lparr>maxIterations := m\<rparr>) i weight ind g =
     generateIndividual_loop s i weight ind g"
proof (induction "length (items s) - i" arbitrary: i weight ind g)
  case 0
  then show ?case by (simp add: generateIndividual_loop.simps)
next
  case (Suc n)
  have next_i: "generateIndividual_loop (s\<lparr>maxIterations := m\<rparr>) (Suc i) w x h =
      generateIndividual_loop s (Suc i) w x h" for w x h
    using Suc.hyps(2) by (intro Suc.hyps(1)) simp
  show ?case
    by (subst generateIndividual_loop.simps, subst (2) generateIndividual_loop.simps)
       (simp add: next_i Let_def split: sum.splits)
qed

lemma generateInitialPop_loop_maxIterations:
  "generateInitialPop_loop (s\<lparr>maxIterations := m\<rparr>) n pop g = generateInitialPop_loop s n pop g"
  by (induction n arbitrary: pop g)
     (simp_all add: generateIndividual_def generateIndividual_loop_maxIterations
        split: sum.splits)

lemma solve_negative_iterations:
  assumes "maxit < 0"
  shows "solve (new_KnapsackSolver its cap pop maxit) g = solve (new_KnapsackSolver its cap pop 0) g"
proof -
  have s: "new_KnapsackSolver its cap pop maxit = (new_KnapsackSolver its cap pop 0)\<lparr>maxIterations := maxit\<rparr>"
    by (simp add: new_KnapsackSolver_def)
  have "generateInitialPop (new_KnapsackSolver its cap pop maxit) g =
      generateInitialPop (new_KnapsackSolver its cap pop 0) g"
    unfolding s by (simp add: generateInitialPop_def generateInitialPop_loop_maxIterations)
  moreover have "maxIterations (new_KnapsackSolver its cap pop maxit) \<le> 0"
    "maxIterations (new_KnapsackSolver its cap pop 0) \<le> 0"
    using assms by (simp_all add: new_KnapsackSolver_def)
  ultimately show ?thesis by (simp add: solve_no_iterations)
qed

text \<open>
  What the constructor requires: a catalog that is not empty and a population size of
  at least 1 (an \<open>int\<close>).  Then it yields the object \<open>new_KnapsackSolver\<close>, whatever
  the capacity and the iteration count.  With a population size of 0 or less it yields
  no object.
\<close>

lemma KnapsackSolver_constructor_defined:
  assumes "its \<noteq> []" "1 \<le> pop" "in_int pop"
  shows "KnapsackSolver_constructor its cap pop maxit = Inr (new_KnapsackSolver its cap pop maxit)"
proof -
  have "0 < length its" using assms(1) by simp
  then have "new_uniform_int_distribution 0 (int (length its) - 1) = Inr (0, int (length its) - 1)"
    by (simp add: new_uniform_int_distribution_def)
  moreover have "in_int (pop - 1)" using assms(2,3) by (simp add: in_int_def)
  moreover have "new_uniform_int_distribution 0 (pop - 1) = Inr (0, pop - 1)"
    using assms(2) by (simp add: new_uniform_int_distribution_def)
  ultimately show ?thesis
    by (simp add: KnapsackSolver_constructor_def new_KnapsackSolver_def)
qed

lemma KnapsackSolver_constructor_no_population:
  assumes "pop \<le> 0"
  shows "\<exists>e. KnapsackSolver_constructor its cap pop maxit = Inl e"
proof -
  have "new_uniform_int_distribution 0 (pop - 1) = Inl BadRange"
    using assms by (simp add: new_uniform_int_distribution_def)
  then show ?thesis
    by (simp add: KnapsackSolver_constructor_def split: sum.splits)
qed

text \<open>
  Claim C4 says that construction with \<open>populationSize \<le> 0\<close> or
  \<open>iterationCount < 0\<close> is rejected with a configuration error.  The constructor does
  not read the iteration count: with one item, a population of one and the iteration
  count \<open>-1\<close> it yields a solver, and that solver solves.
\<close>

theorem constructor_accepts_negative_iterations:
  "KnapsackSolver_constructor one_item 1 1 (- 1) = Inr (new_KnapsackSolver one_item 1 1 (- 1)) \<and>
   maxIterations (new_KnapsackSolver one_item 1 1 (- 1)) = - 1 \<and>
   solve (new_KnapsackSolver one_item 1 1 (- 1)) zeros = Inr [False]"
  by (simp add: KnapsackSolver_constructor_def new_uniform_int_distribution_def
      solve_def generateInitialPop_def generateIndividual_def generateIndividual_loop.simps
      eval_defs eval_nat_numeral)

text \<open>
  Claim C4, amended.  Construction with \<open>populationSize \<le> 0\<close> fails: the population
  distribution is built over the empty range from 0 to \<open>populationSize - 1\<close>, against
  its requirement, and no solver is produced.  An iteration count below 0 is not
  rejected: for a catalog that is not empty and a population size of at least 1,
  construction yields the solver for every iteration count, the solver holds the
  iteration count as given, and a negative iteration count acts as the iteration count
  0 (the loop of \<open>solve\<close> is not entered).
\<close>

theorem constructor_rejects_population_only:
  "(pop \<le> 0 \<longrightarrow> (\<exists>e. KnapsackSolver_constructor its cap pop maxit = Inl e)) \<and>
   (its \<noteq> [] \<and> 1 \<le> pop \<and> in_int pop \<longrightarrow>
      KnapsackSolver_constructor its cap pop maxit = Inr (new_KnapsackSolver its cap pop maxit) \<and>
      maxIterations (new_KnapsackSolver its cap pop maxit) = maxit) \<and>
   (maxit < 0 \<longrightarrow>
      solve (new_KnapsackSolver its cap pop maxit) g = solve (new_KnapsackSolver its cap pop 0) g)"
proof -
  have "maxIterations (new_KnapsackSolver its cap pop maxit) = maxit"
    by (simp add: new_KnapsackSolver_def)
  then show ?thesis
    using KnapsackSolver_constructor_no_population [of pop its cap maxit]
      KnapsackSolver_constructor_defined [of its pop cap maxit]
      solve_negative_iterations [of maxit its cap pop g]
    by blast
qed

text \<open>
  The witness: one item with population size 0, and one item with population size 2,
  both with the iteration count \<open>-1\<close>.
\<close>

theorem constructor_rejects_population_only_witness:
  "(\<exists>e. KnapsackSolver_constructor one_item 1 0 (- 1) = Inl e) \<and>
   KnapsackSolver_constructor one_item 1 2 (- 1) = Inr (new_KnapsackSolver one_item 1 2 (- 1)) \<and>
   maxIterations (new_KnapsackSolver one_item 1 2 (- 1)) = - 1 \<and>
   solve (new_KnapsackSolver one_item 1 2 (- 1)) zeros = Inr [False]"
proof -
  have zero: "solve (new_KnapsackSolver one_item 1 2 0) zeros = Inr [False]"
    by (simp add: solve_def generateInitialPop_def generateIndividual_def
        generateIndividual_loop.simps eval_defs eval_nat_numeral)
  have h: "one_item \<noteq> [] \<and> (1::int) \<le> 2 \<and> in_int 2"
    by (simp add: one_item_def in_int_def)
  have "\<exists>e. KnapsackSolver_constructor one_item 1 0 (- 1) = Inl e"
    using constructor_rejects_population_only [of 0 one_item 1 "- 1" zeros] by simp
  moreover have "KnapsackSolver_constructor one_item 1 2 (- 1) =
      Inr (new_KnapsackSolver one_item 1 2 (- 1))"
    "maxIterations (new_KnapsackSolver one_item 1 2 (- 1)) = - 1"
    using constructor_rejects_population_only [of 2 one_item 1 "- 1" zeros] h by blast+
  moreover have "solve (new_KnapsackSolver one_item 1 2 (- 1)) zeros = Inr [False]"
    using constructor_rejects_population_only [of 2 one_item 1 "- 1" zeros] zero by simp
  ultimately show ?thesis by blast
qed

section \<open>The empty catalog\<close>

text \<open>
  With no item the constructor builds the breeding distribution over the range from 0
  to \<open>-1\<close>, which is empty, against the requirement of the distribution: it yields no
  solver.
\<close>

lemma KnapsackSolver_constructor_empty_catalog:
  "KnapsackSolver_constructor [] cap pop maxit = Inl BadRange"
  by (simp add: KnapsackSolver_constructor_def new_uniform_int_distribution_def)

text \<open>
  Where the members are initialised all the same, \<open>generateIndividual\<close> draws nothing
  and returns the empty individual, the empty individual has no position to flip, and
  every draw of an index is a draw from the empty range.
\<close>

lemma generateIndividual_empty_catalog:
  assumes "items s = []"
  shows "generateIndividual s g = Inr ([], g)"
  using assms by (simp add: generateIndividual_def generateIndividual_loop.simps)

lemma generateInitialPop_loop_empty_catalog:
  assumes "items s = []"
  shows "generateInitialPop_loop s n pop g = Inr (pop @ replicate n [], g)"
proof (induction n arbitrary: pop)
  case 0
  then show ?case by simp
next
  case (Suc n)
  then show ?case
    using assms by (simp add: generateIndividual_empty_catalog replicate_app_Cons_same)
qed

lemma mutate_at_empty: "mutate_at k [] = Inl OutOfBounds"
  by (simp add: mutate_at_def)

lemma mutate_empty_catalog: "mutate (new_KnapsackSolver [] cap pop maxit) parent g = Inl BadRange"
  by (simp add: mutate_def uniform_int_def new_KnapsackSolver_def)

lemma breed_empty_catalog:
  assumes "generation \<noteq> []"
  shows "\<exists>e. breed (new_KnapsackSolver [] cap pop maxit) generation g = Inl e"
proof (cases "resize generation (popSize (new_KnapsackSolver [] cap pop maxit) * 3)")
  case (Inl e)
  then show ?thesis by (simp add: breed_def)
next
  case (Inr newPop)
  from assms obtain x xs where "generation = x # xs" by (cases generation) auto
  then show ?thesis using Inr by (simp add: breed_def mutate_empty_catalog)
qed

lemma solve_empty_catalog_iterations:
  assumes "1 \<le> pop" "1 \<le> maxit"
  shows "\<exists>e. solve (new_KnapsackSolver [] cap pop maxit) g = Inl e"
proof -
  let ?s = "new_KnapsackSolver [] cap pop maxit"
  have sel: "items ?s = []" "popSize ?s = pop" "maxIterations ?s = maxit"
    by (simp_all add: new_KnapsackSolver_def)
  have init: "generateInitialPop ?s g = Inr (replicate (nat pop) [], g)"
    using generateInitialPop_loop_empty_catalog [OF sel(1), of "nat pop" "[]" g]
    by (simp add: generateInitialPop_def sel)
  from assms(1) have ne: "replicate (nat pop) ([]::Individual) \<noteq> []" by simp
  from assms(2) obtain m where m: "nat maxit = Suc m" by (cases "nat maxit") auto
  from breed_empty_catalog [OF ne, of cap pop maxit g]
  obtain e where "breed ?s (replicate (nat pop) []) g = Inl e" by blast
  then show ?thesis using init m by (simp add: solve_def sel)
qed

lemma crossover_empty_catalog:
  "crossover (new_KnapsackSolver [] cap pop maxit) parent1 parent2 g = Inl BadRange"
  by (simp add: crossover_def uniform_int_def new_KnapsackSolver_def)

text \<open>
  Claim C5 says that with an empty catalog \<open>solve\<close> is well defined and returns the
  empty selection, no operation of the run leaving the bounds of its operands.  The
  constructor yields no solver for an empty catalog, with or without iterations; and
  on the members as initialised, the first mutation of a run of one iteration draws
  from the empty range \<open>[0, N)\<close>.
\<close>

theorem empty_catalog_iteration_undefined:
  "KnapsackSolver_constructor [] 10 1 0 = Inl BadRange \<and>
   KnapsackSolver_constructor [] 10 1 1 = Inl BadRange \<and>
   solve (new_KnapsackSolver [] 10 1 1) zeros = Inl BadRange"
  by (simp add: KnapsackSolver_constructor_def new_uniform_int_distribution_def
      solve_def generateInitialPop_def generateIndividual_def generateIndividual_loop.simps
      breed_def resize_def mutate_def eval_defs eval_nat_numeral)

text \<open>
  Claim C5, amended.  With an empty catalog the solver is not defined and \<open>solve\<close>
  returns no selection: construction fails for every capacity, population size and
  iteration count, because the range of the breeding distribution, from 0 to
  \<open>N - 1\<close>, is empty.  Mutation and crossover draw their index from that range, and
  no index is inside an individual of length 0; on the members as initialised, a run
  of at least one iteration with a population of at least one fails for every random
  source.
\<close>

theorem empty_catalog_is_undefined:
  "KnapsackSolver_constructor [] cap pop maxit = Inl BadRange \<and>
   mutate_at k [] = Inl OutOfBounds \<and>
   mutate (new_KnapsackSolver [] cap pop maxit) ind g = Inl BadRange \<and>
   crossover (new_KnapsackSolver [] cap pop maxit) ind ind' g = Inl BadRange \<and>
   (1 \<le> pop \<and> 1 \<le> maxit \<longrightarrow> (\<exists>e. solve (new_KnapsackSolver [] cap pop maxit) g = Inl e))"
  using KnapsackSolver_constructor_empty_catalog mutate_at_empty mutate_empty_catalog
    crossover_empty_catalog solve_empty_catalog_iterations [of pop maxit cap g]
  by blast

text \<open>The witness: capacity 10, a population of two and three iterations.\<close>

theorem empty_catalog_is_undefined_witness:
  "KnapsackSolver_constructor [] 10 2 3 = Inl BadRange \<and>
   mutate (new_KnapsackSolver [] 10 2 3) [] zeros = Inl BadRange \<and>
   (\<exists>e. solve (new_KnapsackSolver [] 10 2 3) zeros = Inl e)"
  using empty_catalog_is_undefined [of 10 2 3 0 "[]" zeros "[]"]
  by simp

section \<open>Breeding pads the pool\<close>

text \<open>
  The pool that \<open>breed\<close> returns: \<open>resize\<close> brings the copy of the population to
  \<open>popSize * 3\<close> elements, filling up with empty individuals, and the loop appends two
  individuals for each member of the population.
\<close>

lemma breed_loop_appends:
  assumes "breed_loop s pop xs newPop g = Inr (pool, g')"
  shows "length pool = length newPop + 2 * length xs \<and> take (length newPop) pool = newPop"
  using assms
proof (induction xs arbitrary: newPop g)
  case Nil
  then show ?case by simp
next
  case (Cons individual rest)
  from Cons.prems obtain mutant child g3 where
    rec: "breed_loop s pop rest (newPop @ [mutant, child]) g3 = Inr (pool, g')"
    by (auto split: sum.splits if_splits)
  from Cons.IH [OF rec] have len: "length pool = length (newPop @ [mutant, child]) + 2 * length rest"
    and tk: "take (length (newPop @ [mutant, child])) pool = newPop @ [mutant, child]"
    by simp_all
  have "take (length newPop) pool = take (length newPop) (take (length (newPop @ [mutant, child])) pool)"
    by (simp add: min_absorb1)
  also have "\<dots> = newPop" unfolding tk by simp
  finally show ?case using len by simp
qed

lemma breed_pool_size:
  assumes "breed s pop g = Inr (pool, g')"
  shows "length pool = nat (popSize s * 3) + 2 * length pop \<and>
         take (nat (popSize s * 3)) pool =
           take (nat (popSize s * 3)) pop @ replicate (nat (popSize s * 3) - length pop) []"
proof -
  let ?n = "nat (popSize s * 3)"
  let ?newPop = "take ?n pop @ replicate (?n - length pop) []"
  from assms have rs: "resize pop (popSize s * 3) = Inr ?newPop"
    and loop: "breed_loop s pop pop ?newPop g = Inr (pool, g')"
    by (auto simp: breed_def resize_def split: sum.splits if_splits)
  have "length ?newPop = ?n" by simp
  with breed_loop_appends [OF loop] show ?thesis by simp
qed

text \<open>
  Claim C1 says that \<open>breed\<close> returns a pool of 3 times the size of the population: the
  population, then one mutant and one crossover child for each member.  For a population
  of one individual (and a population size of 1) the pool has 5 members: the individual,
  two empty individuals left by \<open>resize\<close>, the mutant and the child.
\<close>

theorem breed_pads_with_empty_individuals:
  "breed (new_KnapsackSolver one_item 1 1 1) [[False]] zeros =
     Inr ([[False], [], [], [True], [False]], zeros \<circ> Suc \<circ> Suc \<circ> Suc)"
  by (simp add: breed_def resize_def mutate_def mutate_at_def crossover_def crossover_at_def
      size_t_of_int_def copy_range.simps eval_defs eval_nat_numeral)

text \<open>
  Claim C2 says that every individual of every population of a run has the length of
  the catalog.  In the pool above the catalog has one item, and the two individuals
  that \<open>resize\<close> added have length 0.
\<close>

theorem breed_pool_has_short_individuals:
  "\<exists>pool g'. breed (new_KnapsackSolver one_item 1 1 1) [[False]] zeros = Inr (pool, g') \<and>
     length (items (new_KnapsackSolver one_item 1 1 1)) = 1 \<and>
     map length pool = [1, 0, 0, 1, 1]"
  by (simp add: breed_def resize_def mutate_def mutate_at_def crossover_def crossover_at_def
      size_t_of_int_def copy_range.simps eval_defs eval_nat_numeral)

section \<open>The solver loop\<close>

text \<open>
  Claim C3 says that with an iteration count of 0 \<open>solve\<close> returns the individual of
  highest fitness of the initial population.  It returns element 0 of the population,
  which is not sorted: here the initial population is \<open>[False, False]\<close> and
  \<open>[True, True]\<close>, with fitness 0 and 12, and the first one is returned.
\<close>

theorem solve_zero_iterations_returns_first:
  "solve (new_KnapsackSolver two_items 2 2 0) zeros_then_ones = Inr [False, False] \<and>
   generateInitialPop (new_KnapsackSolver two_items 2 2 0) zeros_then_ones =
     Inr ([[False, False], [True, True]], zeros_then_ones \<circ> Suc \<circ> Suc \<circ> Suc \<circ> Suc) \<and>
   fitness (new_KnapsackSolver two_items 2 2 0) [False, False] = Inr 0 \<and>
   fitness (new_KnapsackSolver two_items 2 2 0) [True, True] = Inr 12"
  by (simp add: solve_def generateInitialPop_def generateIndividual_def generateIndividual_loop.simps
      fitness_def fitness_loop.simps eval_defs eval_nat_numeral)

text \<open>
  The fitness of an empty individual reads gene 0 of an empty vector when the catalog
  has an item.  A pool of two or more members that holds an empty individual cannot be
  sorted, and the pool of the first iteration is such a pool.
\<close>

lemma fitness_of_empty_individual:
  assumes "items s \<noteq> []"
  shows "fitness s [] = Inl OutOfBounds"
  using assms by (simp add: fitness_def fitness_loop.simps)

lemma naturalSelection_of_padded_pool:
  assumes "[] \<in> set pool" "2 \<le> length pool" "items s \<noteq> []"
  shows "\<exists>e. naturalSelection s pool = Inl e"
proof -
  have "first_error s pool \<noteq> None"
    using assms(1) fitness_of_empty_individual [OF assms(3)]
    unfolding first_error_None by (intro notI) force
  then obtain e where "first_error s pool = Some e" by auto
  then show ?thesis
    using assms(2) by (simp add: naturalSelection_def sort_descending_def)
qed

lemma solve_loop_first_iteration_fails:
  assumes "items s \<noteq> []" "1 \<le> popSize s" "length generation = nat (popSize s)"
  shows "\<exists>e. solve_loop s (Suc n) generation g = Inl e"
proof (cases "breed s generation g")
  case (Inl e)
  then show ?thesis by simp
next
  case (Inr r)
  obtain pool g' where r: "r = (pool, g')" by (cases r)
  let ?P = "nat (popSize s)"
  have n3: "nat (popSize s * 3) = 3 * ?P" using assms(2) by simp
  from breed_pool_size [OF Inr [unfolded r]] assms(3)
  have len: "length pool = 5 * ?P"
    and tk: "take (3 * ?P) pool = generation @ replicate (2 * ?P) []"
    unfolding n3 by simp_all
  have P: "0 < ?P" using assms(2) by simp
  have "pool ! ?P = take (3 * ?P) pool ! ?P" using P by simp
  also have "\<dots> = []" unfolding tk using P assms(3) by (simp add: nth_append)
  finally have "pool ! ?P = []" .
  moreover have "?P < length pool" using len P by simp
  ultimately have "[] \<in> set pool" by (metis nth_mem)
  moreover have "2 \<le> length pool" using len P by simp
  ultimately obtain e where "naturalSelection s pool = Inl e"
    using naturalSelection_of_padded_pool assms(1) by blast
  then show ?thesis using Inr r by simp
qed

text \<open>
  So no run with an iteration count of 1 or more returns, whatever the catalog, the
  capacity, the population size and the random source.
\<close>

lemma solve_fails_with_iterations:
  assumes "1 \<le> maxit"
  shows "\<exists>e. solve (new_KnapsackSolver its cap pop maxit) g = Inl e"
proof -
  let ?s = "new_KnapsackSolver its cap pop maxit"
  have sel: "items ?s = its" "popSize ?s = pop" "maxIterations ?s = maxit"
    by (simp_all add: new_KnapsackSolver_def)
  consider "pop \<le> 0" | "1 \<le> pop" "its = []" | "1 \<le> pop" "its \<noteq> []" by linarith
  then show ?thesis
  proof cases
    case 1
    then show ?thesis by (intro solve_no_population) (simp add: sel)
  next
    case 2
    with assms solve_empty_catalog_iterations [of pop maxit cap g]
    show ?thesis by simp
  next
    case 3
    from assms obtain m where m: "nat maxit = Suc m" by (cases "nat maxit") auto
    show ?thesis
    proof (cases "generateInitialPop ?s g")
      case (Inl e)
      then show ?thesis by (simp add: solve_def)
    next
      case (Inr r)
      obtain generation g' where r: "r = (generation, g')" by (cases r)
      from generateInitialPop_loop_all [of ?s "nat pop" "[]" g generation g' "\<lambda>_. True"] Inr r
      have "length generation = nat (popSize ?s)"
        by (simp add: generateInitialPop_def sel)
      from solve_loop_first_iteration_fails [OF _ _ this, of m g'] 3
      obtain e where "solve_loop ?s (Suc m) generation g' = Inl e" by (auto simp: sel)
      then show ?thesis using Inr r m by (simp add: solve_def sel)
    qed
  qed
qed

text \<open>
  Selection by itself is elitist: when every individual of the pool has a fitness, no
  individual of the pool is fitter than element 0 of the selection.  The members of the
  generation are members of the pool of \<open>breed\<close>, so it is the padding alone that
  keeps the fitness of \<open>generation[0]\<close> from being carried from one iteration to
  the next.
\<close>

lemma naturalSelection_head_is_fittest:
  assumes "naturalSelection s pool = Inr (best # others)"
    and "\<forall>x\<in>set pool. \<exists>v. fitness s x = Inr v"
    and "x \<in> set pool"
  shows "the_fitness s x \<le> the_fitness s best"
proof -
  from sort_descending_sorted [OF assms(2)] obtain newPop where
    srt: "sort_descending s pool = Inr newPop" and perm: "mset newPop = mset pool"
    and desc: "sorted_wrt (\<lambda>a b. the_fitness s b \<le> the_fitness s a) newPop"
    by blast
  from assms(1) srt have "take (nat (popSize s)) newPop = best # others"
    by (auto simp: naturalSelection_def split: if_splits)
  then obtain rest where newPop: "newPop = best # rest"
    by (cases newPop) (auto simp: take_Cons' split: if_splits)
  have "x \<in> set newPop" using assms(3) perm by (metis set_mset_mset)
  with newPop desc show ?thesis by auto
qed

text \<open>
  Claim C9 says that the fitness of \<open>generation[0]\<close> never decreases from one iteration
  to the next.  With one item, a population of one and one iteration, the first
  selection reads out of the bounds of an empty individual of the pool, and no
  generation is selected.
\<close>

theorem solve_first_selection_out_of_bounds:
  "solve (new_KnapsackSolver one_item 1 1 1) zeros = Inl OutOfBounds"
  by (simp add: solve_def generateInitialPop_def generateIndividual_def generateIndividual_loop.simps
      breed_def resize_def mutate_def mutate_at_def crossover_def crossover_at_def
      size_t_of_int_def copy_range.simps naturalSelection_def sort_descending_def
      fitness_def fitness_loop.simps eval_defs eval_nat_numeral)

end
